theory Spec2Isabelle
  imports Main "HOL-Library.Word" "HOL-Library.AList"
begin

section \<open>Wire codec shared by the receiver and the two senders\<close>

text \<open>
  A datagram is a list of bytes. Python integers are unbounded, so every counter of the
  programs (\<open>seqno\<close>, \<open>desired_ackno\<close>, \<open>last_cum_ack\<close>, \<open>swnd\<close>, ...) is an \<open>int\<close>.
  Python dictionaries are association lists handled through \<open>map_of\<close>, \<open>AList.update\<close>
  and \<open>AList.delete\<close>, which keep the insertion order as Python does.
\<close>

type_synonym byte = "8 word"
type_synonym bytes = "byte list"
type_synonym addr = "string \<times> nat"
type_synonym 'v dict = "(int \<times> 'v) list"

text \<open>
  The exceptions the three programs can raise: \<open>struct.error\<close> from \<open>struct.pack\<close> and
  \<open>struct.unpack\<close>, \<open>KeyError\<close> from indexing a dictionary, \<open>TypeError\<close> from
  concatenating a \<open>bytearray\<close> with \<open>None\<close>.
\<close>

datatype error = StructError | KeyError int | TypeError

text \<open>
  How a main loop stands after an iteration: still running, left through its exit
  condition or a \<open>break\<close>, or terminated by an uncaught exception.
\<close>

datatype status = Running | Finished | Crashed error

text \<open>Big-endian value of a run of bytes (the \<open>>I\<close> format on four bytes).\<close>

definition be_val :: "bytes \<Rightarrow> int" where
  "be_val bs = foldl (\<lambda>acc b. acc * 256 + uint b) 0 bs"

text \<open>\<open>struct.unpack(">II", buf)\<close>: the buffer must hold exactly 8 bytes.\<close>

definition unpack_II :: "bytes \<Rightarrow> error + (int \<times> int)" where
  "unpack_II buf =
     (if length buf \<noteq> 8 then Inl StructError
      else Inr (be_val (take 4 buf), be_val (drop 4 buf)))"

definition be_bytes :: "int \<Rightarrow> bytes" where
  "be_bytes x = map (\<lambda>k. word_of_int (x div 256 ^ k mod 256)) [3, 2, 1, 0::nat]"

text \<open>\<open>struct.pack(">II", a, b)\<close>: each argument must fit an unsigned 32-bit field.\<close>

definition pack_II :: "int \<Rightarrow> int \<Rightarrow> error + bytes" where
  "pack_II a b =
     (if 0 \<le> a \<and> a < 2 ^ 32 \<and> 0 \<le> b \<and> b < 2 ^ 32 then Inr (be_bytes a @ be_bytes b)
      else Inl StructError)"

text \<open>
  The generic driver of a main loop: one input per iteration; it stops at the first
  iteration that does not leave the loop running, and keeps everything emitted so far.
\<close>

fun run_loop :: "('i \<Rightarrow> 's \<Rightarrow> 'e list \<times> 's \<times> status) \<Rightarrow> 'i list \<Rightarrow> 's \<Rightarrow> 'e list \<times> 's \<times> status"
  where
  "run_loop iter [] st = ([], st, Running)"
| "run_loop iter (i # is) st =
     (case iter i st of
        (evs, st', Running) \<Rightarrow>
          (case run_loop iter is st' of (evs', res) \<Rightarrow> (evs @ evs', res))
      | (evs, st', Finished) \<Rightarrow> (evs, st', Finished)
      | (evs, st', Crashed err) \<Rightarrow> (evs, st', Crashed err))"

definition events_of :: "'e list \<times> 's \<times> status \<Rightarrow> 'e list" where
  "events_of r = fst r"

definition state_of :: "'e list \<times> 's \<times> status \<Rightarrow> 's" where
  "state_of r = fst (snd r)"

definition status_of :: "'e list \<times> 's \<times> status \<Rightarrow> status" where
  "status_of r = snd (snd r)"

section \<open>The receiver (server2.py)\<close>

text \<open>
  The two variables \<open>main\<close> carries across iterations. What the receiver does to the
  outside is the list of its calls to \<open>datasink.deliver\<close> and to \<open>s.sendto\<close>; printing
  and the trace file have no influence on the control flow and are left out.
\<close>

record server_state =
  last_cum_ack :: int
  out_of_order_packets :: "bytes dict"

datatype server_event =
    Deliver int bytes
  | SendAck addr bytes

definition server_init :: server_state where
  "server_init = \<lparr> last_cum_ack = -1, out_of_order_packets = [] \<rparr>"

text \<open>
  The inner \<open>while last_cum_ack + 1 in out_of_order_packets\<close> loop: it returns the new
  \<open>last_cum_ack\<close>, the remaining dictionary and the packets handed to \<open>process_packet\<close>,
  in order.
\<close>

function drain :: "int \<Rightarrow> bytes dict \<Rightarrow> int \<times> bytes dict \<times> (int \<times> bytes) list" where
  "drain lca buf =
     (case map_of buf (lca + 1) of
        None \<Rightarrow> (lca, buf, [])
      | Some payload \<Rightarrow>
          (case drain (lca + 1) (AList.delete (lca + 1) buf) of
             (lca', buf', ds) \<Rightarrow> (lca', buf', (lca + 1, payload) # ds)))"
  by pat_completeness auto
termination
proof (relation "measure (\<lambda>(lca, buf). length buf)")
  show "wf (measure (\<lambda>(lca, buf). length buf))" by simp
next
  fix lca :: int and buf :: "bytes dict" and payload
  assume "map_of buf (lca + 1) = Some payload"
  then have "(lca + 1, payload) \<in> set buf" by (rule map_of_SomeD)
  then have "length (filter (\<lambda>(k, _). lca + 1 \<noteq> k) buf) < length buf"
    by (intro length_filter_less [where x = "(lca + 1, payload)"]) auto
  then show "((lca + 1, AList.delete (lca + 1) buf), (lca, buf))
      \<in> measure (\<lambda>(lca, buf). length buf)"
    by (simp add: AList.delete_eq)
qed

text \<open>\<open>process_packet\<close>: the one call to the sink.\<close>

definition process_packet :: "int \<Rightarrow> bytes \<Rightarrow> server_event" where
  "process_packet seqno payload = Deliver seqno payload"

text \<open>\<open>send_cum_ack\<close>: packs the acknowledgment, then sends it to the client.\<close>

definition send_cum_ack :: "addr \<Rightarrow> int \<Rightarrow> error + server_event" where
  "send_cum_ack client_addr lca =
     (case pack_II 0xAAAAAAAA lca of
        Inl err \<Rightarrow> Inl err
      | Inr ack \<Rightarrow> Inr (SendAck client_addr ack))"

text \<open>
  One iteration of \<open>while True\<close> in \<open>main\<close>, on the pair \<open>s.recvfrom\<close> returned. There
  is no \<open>try\<close> in the receiver: an exception ends the process.
\<close>

definition server_step :: "bytes \<times> addr \<Rightarrow> server_state \<Rightarrow> server_event list \<times> server_state \<times> status"
  where
  "server_step inp st =
     (case inp of (packet, client_addr) \<Rightarrow>
        (let hdr = take 8 packet; payload = drop 8 packet in
           (case unpack_II hdr of
              Inl err \<Rightarrow> ([], st, Crashed err)
            | Inr (magic, seqno) \<Rightarrow>
                (if seqno = last_cum_ack st + 1 then
                   (case drain seqno (out_of_order_packets st) of
                      (lca', buf', ds) \<Rightarrow>
                        (let delivered = process_packet seqno payload
                               # map (\<lambda>(k, p). process_packet k p) ds;
                             st' = st\<lparr> last_cum_ack := lca', out_of_order_packets := buf' \<rparr>
                         in (case send_cum_ack client_addr lca' of
                               Inl err \<Rightarrow> (delivered, st', Crashed err)
                             | Inr ack \<Rightarrow> (delivered @ [ack], st', Running))))
                 else if seqno > last_cum_ack st + 1 then
                   ([], st\<lparr> out_of_order_packets :=
                            AList.update seqno payload (out_of_order_packets st) \<rparr>, Running)
                 else ([], st, Running)))))"

definition server_run :: "(bytes \<times> addr) list \<Rightarrow> server_state \<Rightarrow> server_event list \<times> server_state \<times> status"
  where
  "server_run = run_loop server_step"

text \<open>The sequence numbers handed to the sink, and the acknowledgments sent, in order.\<close>

fun delivered_seqnos :: "server_event list \<Rightarrow> int list" where
  "delivered_seqnos [] = []"
| "delivered_seqnos (Deliver k p # evs) = k # delivered_seqnos evs"
| "delivered_seqnos (SendAck a b # evs) = delivered_seqnos evs"

fun acks_sent :: "server_event list \<Rightarrow> (addr \<times> bytes) list" where
  "acks_sent [] = []"
| "acks_sent (Deliver k p # evs) = acks_sent evs"
| "acks_sent (SendAck a b # evs) = (a, b) # acks_sent evs"

text \<open>The sequence number a well-formed data datagram carries.\<close>

definition seqno_of :: "bytes \<Rightarrow> int" where
  "seqno_of packet = be_val (drop 4 (take 8 packet))"


text \<open>
  The invariant of the receiver's loop: the frontier stays within \<open>-1 .. 2^32 - 1\<close> and
  every buffered key is a 32-bit value strictly beyond \<open>last_cum_ack + 1\<close>.
\<close>

definition server_inv :: "server_state \<Rightarrow> bool" where
  "server_inv st \<longleftrightarrow>
     - 1 \<le> last_cum_ack st \<and> last_cum_ack st < 2 ^ 32 \<and>
     (\<forall>k\<in>fst ` set (out_of_order_packets st). last_cum_ack st + 1 < k \<and> k < 2 ^ 32)"

text \<open>A sequence number the receiver holds: delivered already, or waiting in the buffer.\<close>

definition covered :: "server_state \<Rightarrow> int \<Rightarrow> bool" where
  "covered st s \<longleftrightarrow> s \<le> last_cum_ack st \<or> s \<in> fst ` set (out_of_order_packets st)"

section \<open>The senders (client_pipelined2.py and client_pipelined3.py)\<close>

text \<open>
  The variables \<open>main\<close> carries across iterations of its \<open>while\<close> loop. The
  adaptive-window client has the variables of the fixed-window client and two more.
\<close>

record client2_state =
  seqno :: int
  desired_ackno :: int
  body :: "bytes option"
  have_more_data :: bool
  outstanding :: "bytes dict"
  state :: int

record client3_state = client2_state +
  highest_cum_ack :: int
  swnd :: int

text \<open>
  What the outside answers in one iteration, were it asked: the result of
  \<open>datasource.wait_for_data(seqno)\<close> (\<open>None\<close> when the data is exhausted) and the outcome of
  \<open>s.recvfrom(100)\<close> under the timeout. An iteration reads only the answer its state asks
  for. Both are arbitrary: the model assumes nothing about the data source or the network.
\<close>

datatype recv_result = Datagram bytes | Timeout | SocketError

record env =
  wait_for_data :: "bytes option"
  recvfrom :: recv_result

text \<open>
  What a sender does to the outside and which branch of the acknowledgment handling it
  took: a datagram handed to \<open>s.sendto\<close>, an acknowledgment acted upon by the progress
  branch, an acknowledgment left unused, an expired wait (the \<open>except\<close> clause, entered
  on \<open>socket.timeout\<close> and on \<open>socket.error\<close> alike). Printing and the trace file are
  left out, and \<open>s.sendto\<close> is taken to succeed.
\<close>

datatype client_event = Sendto bytes | AckProgress int | AckStale int | RecvTimeout

definition magic :: int where
  "magic = 0xBAADCAFE"

definition client2_init :: client2_state where
  "client2_init = \<lparr> seqno = 0, desired_ackno = 0, body = None, have_more_data = True,
     outstanding = [], state = 0 \<rparr>"

definition client3_init :: client3_state where
  "client3_init = \<lparr> seqno = 0, desired_ackno = 0, body = None, have_more_data = True,
     outstanding = [], state = 0, highest_cum_ack = - 1, swnd = 1 \<rparr>"

text \<open>State 0, the same in both clients: ask the data source for the next chunk.\<close>

definition await_data ::
  "env \<Rightarrow> 'a client2_state_scheme \<Rightarrow> client_event list \<times> 'a client2_state_scheme \<times> status" where
  "await_data e st =
     (case wait_for_data e of
        None \<Rightarrow> ([], st\<lparr> body := None, have_more_data := False, state := 2 \<rparr>, Running)
      | Some b \<Rightarrow> ([], st\<lparr> body := Some b, state := 1 \<rparr>, Running))"

text \<open>
  State 1: pack the header, send the packet, record it, advance \<open>seqno\<close>. The two clients
  differ only in the window the size of the outstanding set is compared with (\<open>n\<close> or
  \<open>swnd\<close>).
\<close>

definition send_one ::
  "int \<Rightarrow> 'a client2_state_scheme \<Rightarrow> client_event list \<times> 'a client2_state_scheme \<times> status" where
  "send_one window st =
     (case pack_II magic (seqno st) of
        Inl err \<Rightarrow> ([], st, Crashed err)
      | Inr hdr \<Rightarrow>
          (case body st of
             None \<Rightarrow> ([], st, Crashed TypeError)
           | Some b \<Rightarrow>
               (let pkt = hdr @ b;
                    out = AList.update (seqno st) pkt (outstanding st)
                in ([Sendto pkt],
                    st\<lparr> outstanding := out, seqno := seqno st + 1,
                        state := (if window \<le> int (length out) then 2 else 0) \<rparr>,
                    Running))))"

text \<open>
  The \<open>for i in range(desired_ackno, ackno + 1)\<close> loop of the fixed-window client, with
  its \<open>if i in outstanding\<close> test.
\<close>

definition drop_acked :: "int \<Rightarrow> int \<Rightarrow> bytes dict \<Rightarrow> bytes dict" where
  "drop_acked lo hi out =
     fold (\<lambda>i d. if map_of d i \<noteq> None then AList.delete i d else d) [lo .. hi] out"

text \<open>
  State 2 of the fixed-window client. The \<open>except\<close> clause catches the timeout and socket
  errors only: the \<open>struct.error\<close> of \<open>struct.unpack\<close> leaves the loop.
\<close>

definition client2_await_ack ::
  "int \<Rightarrow> env \<Rightarrow> client2_state \<Rightarrow> client_event list \<times> client2_state \<times> status" where
  "client2_await_ack n e st =
     (case recvfrom e of
        Datagram ack \<Rightarrow>
          (case unpack_II ack of
             Inl err \<Rightarrow> ([], st, Crashed err)
           | Inr (magack, ackno) \<Rightarrow>
               (if desired_ackno st \<le> ackno then
                  (let out = drop_acked (desired_ackno st) ackno (outstanding st)
                   in ([AckProgress ackno],
                       st\<lparr> outstanding := out, desired_ackno := ackno + 1,
                           state := (if int (length out) < n \<and> have_more_data st then 0 else 2) \<rparr>,
                       Running))
                else ([AckStale ackno], st\<lparr> state := 2 \<rparr>, Running)))
      | Timeout \<Rightarrow> ([RecvTimeout], st\<lparr> state := 3 \<rparr>, Running)
      | SocketError \<Rightarrow> ([RecvTimeout], st\<lparr> state := 3 \<rparr>, Running))"

text \<open>
  The \<open>for i in range(desired_ackno, seqno)\<close> loop of state 3: \<open>outstanding[i]\<close> raises
  \<open>KeyError\<close> on a missing key, after the sends that came before it.
\<close>

fun resend_all :: "int list \<Rightarrow> bytes dict \<Rightarrow> client_event list \<times> error option" where
  "resend_all [] out = ([], None)"
| "resend_all (i # is) out =
     (case map_of out i of
        None \<Rightarrow> ([], Some (KeyError i))
      | Some pkt \<Rightarrow> (case resend_all is out of (evs, r) \<Rightarrow> (Sendto pkt # evs, r)))"

definition client2_retransmit :: "client2_state \<Rightarrow> client_event list \<times> client2_state \<times> status"
  where
  "client2_retransmit st =
     (case resend_all [desired_ackno st .. seqno st - 1] (outstanding st) of
        (evs, None) \<Rightarrow> (evs, st\<lparr> state := 2 \<rparr>, Running)
      | (evs, Some err) \<Rightarrow> (evs, st, Crashed err))"

text \<open>The body of the \<open>while\<close> loop; the last branch is the \<open>break\<close>.\<close>

definition client2_step ::
  "int \<Rightarrow> env \<Rightarrow> client2_state \<Rightarrow> client_event list \<times> client2_state \<times> status" where
  "client2_step n e st =
     (if state st = 0 then await_data e st
      else if state st = 1 then send_one n st
      else if state st = 2 then client2_await_ack n e st
      else if state st = 3 then client2_retransmit st
      else ([], st, Finished))"

text \<open>One pass of \<open>while have_more_data or len(outstanding) > 0\<close>.\<close>

definition client2_iter ::
  "int \<Rightarrow> env \<Rightarrow> client2_state \<Rightarrow> client_event list \<times> client2_state \<times> status" where
  "client2_iter n e st =
     (if have_more_data st \<or> 0 < length (outstanding st) then client2_step n e st
      else ([], st, Finished))"

definition client2_run ::
  "int \<Rightarrow> env list \<Rightarrow> client2_state \<Rightarrow> client_event list \<times> client2_state \<times> status" where
  "client2_run n = run_loop (client2_iter n)"

text \<open>State 2 of the adaptive-window client.\<close>

definition client3_await_ack ::
  "env \<Rightarrow> client3_state \<Rightarrow> client_event list \<times> client3_state \<times> status" where
  "client3_await_ack e st =
     (case recvfrom e of
        Datagram ack \<Rightarrow>
          (case unpack_II ack of
             Inl err \<Rightarrow> ([], st, Crashed err)
           | Inr (magack, ackno) \<Rightarrow>
               (let st1 = (if highest_cum_ack st < ackno then
                             st\<lparr> highest_cum_ack := ackno, desired_ackno := ackno + 1,
                                 outstanding := filter (\<lambda>(seq, pkt_info). ackno < seq) (outstanding st),
                                 swnd := swnd st + 1 \<rparr>
                           else st)
                in ([if highest_cum_ack st < ackno then AckProgress ackno else AckStale ackno],
                    st1\<lparr> state := (if int (length (outstanding st1)) < swnd st1 \<and> have_more_data st1
                                     then 0 else 2) \<rparr>,
                    Running)))
      | Timeout \<Rightarrow> ([RecvTimeout], st\<lparr> state := 3 \<rparr>, Running)
      | SocketError \<Rightarrow> ([RecvTimeout], st\<lparr> state := 3 \<rparr>, Running))"

text \<open>State 3 of the adaptive-window client: resend the oldest packet, if it is there.\<close>

definition client3_retransmit :: "client3_state \<Rightarrow> client_event list \<times> client3_state \<times> status"
  where
  "client3_retransmit st =
     (case map_of (outstanding st) (desired_ackno st) of
        None \<Rightarrow> ([], st\<lparr> state := 2 \<rparr>, Running)
      | Some pkt \<Rightarrow> ([Sendto pkt], st\<lparr> swnd := 1, state := 2 \<rparr>, Running))"

definition client3_step ::
  "env \<Rightarrow> client3_state \<Rightarrow> client_event list \<times> client3_state \<times> status" where
  "client3_step e st =
     (if state st = 0 then await_data e st
      else if state st = 1 then send_one (swnd st) st
      else if state st = 2 then client3_await_ack e st
      else if state st = 3 then client3_retransmit st
      else ([], st, Finished))"

definition client3_iter ::
  "env \<Rightarrow> client3_state \<Rightarrow> client_event list \<times> client3_state \<times> status" where
  "client3_iter e st =
     (if have_more_data st \<or> 0 < length (outstanding st) then client3_step e st
      else ([], st, Finished))"

definition client3_run ::
  "env list \<Rightarrow> client3_state \<Rightarrow> client_event list \<times> client3_state \<times> status" where
  "client3_run = run_loop client3_iter"

text \<open>The acknowledgment numbers the progress branch acted upon, in order.\<close>

fun acted_upon :: "client_event list \<Rightarrow> int list" where
  "acted_upon [] = []"
| "acted_upon (AckProgress a # evs) = a # acted_upon evs"
| "acted_upon (Sendto p # evs) = acted_upon evs"
| "acted_upon (AckStale a # evs) = acted_upon evs"
| "acted_upon (RecvTimeout # evs) = acted_upon evs"

section \<open>Invariants of the senders\<close>

text \<open>
  The fixed-window client enters states 0 and 1 only with room left in the window of
  size \<open>n\<close>, and the keys of \<open>outstanding\<close> are pairwise distinct, so that the length
  of the association list is the size of the dictionary.
\<close>

definition window_inv :: "int \<Rightarrow> client2_state \<Rightarrow> bool" where
  "window_inv n st \<longleftrightarrow>
     int (length (outstanding st)) \<le> n \<and>
     (state st = 0 \<or> state st = 1 \<longrightarrow> int (length (outstanding st)) < n) \<and>
     distinct (map fst (outstanding st))"

text \<open>Every sequence number from \<open>desired_ackno\<close> up to \<open>seqno - 1\<close> is a key of \<open>outstanding\<close>.\<close>

definition range_inv :: "client2_state \<Rightarrow> bool" where
  "range_inv st \<longleftrightarrow>
     (\<forall>i. desired_ackno st \<le> i \<and> i < seqno st \<longrightarrow> i \<in> fst ` set (outstanding st))"

text \<open>
  How \<open>desired_ackno\<close> and the acknowledgments acted upon relate across a stretch of a
  run that starts in \<open>s\<close>, emits \<open>evs\<close> and ends in \<open>s'\<close>.
\<close>

definition acks_rel ::
  "'a client2_state_scheme \<Rightarrow> client_event list \<Rightarrow> 'a client2_state_scheme \<Rightarrow> bool" where
  "acks_rel s evs s' \<longleftrightarrow>
     desired_ackno s \<le> desired_ackno s' \<and> sorted_wrt (<) (acted_upon evs) \<and>
     (\<forall>a\<in>set (acted_upon evs). desired_ackno s \<le> a \<and> a < desired_ackno s')"

text \<open>
  The adaptive-window client keeps \<open>desired_ackno = highest_cum_ack + 1\<close>, and it waits
  for an acknowledgment (states 2 and 3) only when the window is full or the data is
  exhausted.
\<close>

definition client3_inv :: "client3_state \<Rightarrow> bool" where
  "client3_inv st \<longleftrightarrow>
     desired_ackno st = highest_cum_ack st + 1 \<and>
     (state st = 2 \<or> state st = 3 \<longrightarrow>
        \<not> (int (length (outstanding st)) < swnd st \<and> have_more_data st))"

text \<open>
  Across a stretch of a run without an expired wait that does not start in state 3,
  \<open>swnd\<close> grows by the number of acknowledgments acted upon.
\<close>

definition swnd_rel :: "client3_state \<Rightarrow> client_event list \<Rightarrow> client3_state \<Rightarrow> bool" where
  "swnd_rel s evs s' \<longleftrightarrow>
     (RecvTimeout \<notin> set evs \<and> state s \<noteq> 3 \<longrightarrow>
        state s' \<noteq> 3 \<and> swnd s' = swnd s + int (length (acted_upon evs)))"

section \<open>Concrete datagrams and environments\<close>

text \<open>
  The inputs of the concrete runs below: a client address, a data datagram with the
  magic number \<open>0xBAADCAFE\<close>, sequence number \<open>s\<close> and a one-byte payload, an
  acknowledgment datagram with the magic number \<open>0xAAAAAAAA\<close> and acknowledgment number
  \<open>a\<close>, an iteration in which the data source has a chunk and no acknowledgment
  arrives, and one in which the data source has a chunk and the acknowledgment \<open>a\<close>
  arrives.
\<close>

definition client_addr0 :: addr where
  "client_addr0 = (''10.0.0.7'', 50000)"

definition data_packet :: "byte \<Rightarrow> byte \<Rightarrow> bytes" where
  "data_packet s b = [0xBA, 0xAD, 0xCA, 0xFE, 0, 0, 0, s, b]"

definition ack_packet :: "byte \<Rightarrow> bytes" where
  "ack_packet a = [0xAA, 0xAA, 0xAA, 0xAA, 0, 0, 0, a]"

definition offers :: env where
  "offers = \<lparr> wait_for_data = Some [1], recvfrom = Timeout \<rparr>"

definition acked :: "byte \<Rightarrow> env" where
  "acked a = \<lparr> wait_for_data = Some [1], recvfrom = Datagram (ack_packet a) \<rparr>"

section \<open>Evaluation rules for concrete runs\<close>

declare drain.simps [simp del]

lemmas codec_eval = pack_II_def unpack_II_def be_val_def be_bytes_def magic_def

lemmas loop_eval = events_of_def state_of_def status_of_def

lemmas client2_eval = client2_run_def client2_iter_def client2_step_def client2_init_def
  await_data_def send_one_def client2_await_ack_def client2_retransmit_def drop_acked_def Let_def
  upto.simps

lemmas client3_eval = client3_run_def client3_iter_def client3_step_def client3_init_def
  await_data_def send_one_def client3_await_ack_def client3_retransmit_def Let_def

lemmas fixture_eval = client_addr0_def data_packet_def ack_packet_def offers_def acked_def

lemmas server_eval = server_run_def server_step_def server_init_def drain.simps
  send_cum_ack_def process_packet_def seqno_of_def Let_def

section \<open>The loop driver\<close>

text \<open>
  A relation between the state before, the events emitted and the state after that
  holds for every iteration, for the empty stretch and for the concatenation of two
  stretches holds for every run; an invariant may be carried along.
\<close>

lemma run_loop_rel:
  assumes step: "\<And>i s evs s' r. I s \<Longrightarrow> f i s = (evs, s', r) \<Longrightarrow> I s' \<and> P s evs s'"
    and refl: "\<And>s. P s [] s"
    and trans: "\<And>s e1 s1 e2 s2. P s e1 s1 \<Longrightarrow> P s1 e2 s2 \<Longrightarrow> P s (e1 @ e2) s2"
    and init: "I st"
  shows "I (state_of (run_loop f is st))
    \<and> P st (events_of (run_loop f is st)) (state_of (run_loop f is st))"
  using init
proof (induction "is" arbitrary: st)
  case Nil
  then show ?case by (simp add: state_of_def events_of_def refl)
next
  case (Cons i "is")
  obtain e1 s1 r1 where b: "f i st = (e1, s1, r1)" by (cases "f i st") auto
  from step [OF Cons.prems b] have h: "I s1" "P st e1 s1" by simp_all
  show ?case
  proof (cases r1)
    case Running
    obtain e2 s2 r2 where r: "run_loop f is s1 = (e2, s2, r2)"
      by (cases "run_loop f is s1") auto
    from Cons.IH [OF h(1)] r have "I s2" "P s1 e2 s2"
      by (simp_all add: state_of_def events_of_def)
    with h trans show ?thesis by (simp add: b Running r state_of_def events_of_def)
  next
    case Finished
    with h show ?thesis by (simp add: b state_of_def events_of_def)
  next
    case (Crashed err)
    with h show ?thesis by (simp add: b state_of_def events_of_def)
  qed
qed

lemma run_loop_inv:
  assumes step: "\<And>i s evs s' r. I s \<Longrightarrow> f i s = (evs, s', r) \<Longrightarrow> I s'"
    and init: "I st"
  shows "I (state_of (run_loop f is st))"
  using run_loop_rel [where I = I and P = "\<lambda>_ _ _. True" and f = f and st = st] step init
  by blast

lemma run_loop_append:
  "run_loop f (xs @ ys) st =
     (case run_loop f xs st of
        (evs, st', Running) \<Rightarrow>
          (case run_loop f ys st' of (evs', res) \<Rightarrow> (evs @ evs', res))
      | (evs, st', Finished) \<Rightarrow> (evs, st', Finished)
      | (evs, st', Crashed err) \<Rightarrow> (evs, st', Crashed err))"
proof (induction xs arbitrary: st)
  case Nil
  show ?case by (cases "run_loop f ys st") simp
next
  case (Cons x xs)
  obtain e1 s1 r1 where b: "f x st = (e1, s1, r1)" by (cases "f x st") auto
  show ?case
  proof (cases r1)
    case Running
    obtain e2 s2 r2 where r: "run_loop f xs s1 = (e2, s2, r2)"
      by (cases "run_loop f xs s1") auto
    show ?thesis
    proof (cases r2)
      case Running
      obtain e3 s3 r3 where r': "run_loop f ys s2 = (e3, s3, r3)"
        by (cases "run_loop f ys s2") auto
      show ?thesis using Cons.IH [of s1] by (simp add: b \<open>r1 = Running\<close> r Running r')
    qed (use Cons.IH [of s1] in \<open>simp_all add: b \<open>r1 = Running\<close> r\<close>)
  qed (simp_all add: b)
qed

text \<open>A later point of a run is reached from an earlier one by a run of its own.\<close>

lemma run_loop_later:
  "\<exists>zs. state_of (run_loop f (xs @ ys) st)
     = state_of (run_loop f zs (state_of (run_loop f xs st)))"
proof -
  obtain e1 s1 r1 where r: "run_loop f xs st = (e1, s1, r1)"
    by (cases "run_loop f xs st") auto
  show ?thesis
  proof (cases r1)
    case Running
    obtain e2 s2 r2 where r': "run_loop f ys s1 = (e2, s2, r2)"
      by (cases "run_loop f ys s1") auto
    have "state_of (run_loop f (xs @ ys) st) = state_of (run_loop f ys (state_of (run_loop f xs st)))"
      by (simp add: run_loop_append r Running r' state_of_def)
    then show ?thesis ..
  next
    case Finished
    have "state_of (run_loop f (xs @ ys) st) = state_of (run_loop f [] (state_of (run_loop f xs st)))"
      by (simp add: run_loop_append r Finished state_of_def)
    then show ?thesis ..
  next
    case (Crashed err)
    have "state_of (run_loop f (xs @ ys) st) = state_of (run_loop f [] (state_of (run_loop f xs st)))"
      by (simp add: run_loop_append r Crashed state_of_def)
    then show ?thesis ..
  qed
qed

section \<open>The receiver: codec, drain loop and loop invariant\<close>

text \<open>
  Four bytes decode to an unsigned 32-bit value.
\<close>

lemma be_val4: "length bs = 4 \<Longrightarrow> 0 \<le> be_val bs \<and> be_val bs < 2 ^ 32"
proof -
  assume "length bs = 4"
  then obtain a b c d where bs: "bs = [a, b, c, d]"
    by (auto simp: length_Suc_conv numeral_eq_Suc)
  have "uint a < 256" "uint b < 256" "uint c < 256" "uint d < 256"
    using uint_lt2p [of a] uint_lt2p [of b] uint_lt2p [of c] uint_lt2p [of d] by simp_all
  moreover have "0 \<le> uint a" "0 \<le> uint b" "0 \<le> uint c" "0 \<le> uint d" by simp_all
  ultimately show ?thesis unfolding bs be_val_def by simp
qed

lemma unpack_II_ok:
  "length buf = 8 \<Longrightarrow> unpack_II buf = Inr (be_val (take 4 buf), be_val (drop 4 buf))"
  by (simp add: unpack_II_def)

lemma unpack_hdr:
  "8 \<le> length packet \<Longrightarrow>
   unpack_II (take 8 packet) = Inr (be_val (take 4 packet), seqno_of packet)"
  by (simp add: unpack_II_def seqno_of_def min_def take_drop)

lemma unpack_hdr_short:
  "length packet < 8 \<Longrightarrow> unpack_II (take 8 packet) = Inl StructError"
  by (simp add: unpack_II_def)

lemma seqno_of_range: "8 \<le> length packet \<Longrightarrow> 0 \<le> seqno_of packet \<and> seqno_of packet < 2 ^ 32"
  unfolding seqno_of_def by (rule be_val4) simp

lemma keys_delete: "fst ` set (AList.delete k al) = fst ` set al - {k}"
  by (induction al) auto

lemma map_of_keys: "map_of al k = None \<longleftrightarrow> k \<notin> fst ` set al"
  by (simp add: map_of_eq_None_iff)

text \<open>
  The drain loop, started with every buffered key beyond the frontier: it delivers the
  contiguous run that follows the frontier, in order, and leaves only keys beyond the
  successor of the new frontier.
\<close>

lemma drain_spec:
  "\<forall>k\<in>fst ` set buf. lca < k \<Longrightarrow> drain lca buf = (lca', buf', ds) \<Longrightarrow>
   lca \<le> lca' \<and> (\<forall>k\<in>fst ` set buf'. lca' + 1 < k) \<and> map fst ds = [lca + 1 .. lca']
   \<and> fst ` set buf' \<subseteq> fst ` set buf
   \<and> (\<forall>k\<in>fst ` set buf. k \<le> lca' \<or> k \<in> fst ` set buf')
   \<and> (lca' = lca \<or> lca' \<in> fst ` set buf)"
proof (induction lca buf arbitrary: lca' buf' ds rule: drain.induct)
  case (1 lca buf)
  show ?case
  proof (cases "map_of buf (lca + 1)")
    case None
    then have nk: "lca + 1 \<notin> fst ` set buf" by (simp add: map_of_keys)
    from None "1.prems"(2) have eq: "lca' = lca" "buf' = buf" "ds = []"
      by (simp_all add: drain.simps [of lca buf])
    have "\<forall>k\<in>fst ` set buf. lca + 1 < k"
    proof
      fix k assume k: "k \<in> fst ` set buf"
      with "1.prems"(1) have "lca < k" by blast
      moreover from k nk have "k \<noteq> lca + 1" by blast
      ultimately show "lca + 1 < k" by simp
    qed
    then show ?thesis using eq by simp
  next
    case (Some payload)
    obtain l2 b2 d2 where rec: "drain (lca + 1) (AList.delete (lca + 1) buf) = (l2, b2, d2)"
      by (cases "drain (lca + 1) (AList.delete (lca + 1) buf)") auto
    from Some rec "1.prems"(2) have eq: "lca' = l2" "buf' = b2" "ds = (lca + 1, payload) # d2"
      by (simp_all add: drain.simps [of lca buf])
    have pre: "\<forall>k\<in>fst ` set (AList.delete (lca + 1) buf). lca + 1 < k"
      using "1.prems"(1) by (auto simp: keys_delete)
    note ih = "1.IH" [OF Some pre rec]
    have inkeys: "lca + 1 \<in> fst ` set buf"
      using Some by (metis map_of_keys option.distinct(1))
    from ih have le: "lca + 1 \<le> l2" by simp
    have "[lca + 1 .. l2] = (lca + 1) # [lca + 1 + 1 .. l2]"
      using le by (simp add: upto_rec1)
    with ih have m: "map fst ds = [lca + 1 .. lca']" by (simp add: eq)
    from ih have sub: "fst ` set b2 \<subseteq> fst ` set buf" by (auto simp: keys_delete)
    have cov: "\<forall>k\<in>fst ` set buf. k \<le> l2 \<or> k \<in> fst ` set b2"
    proof
      fix k assume k: "k \<in> fst ` set buf"
      show "k \<le> l2 \<or> k \<in> fst ` set b2"
      proof (cases "k = lca + 1")
        case True with le show ?thesis by simp
      next
        case False
        with k have "k \<in> fst ` set (AList.delete (lca + 1) buf)" by (simp add: keys_delete)
        with ih show ?thesis by blast
      qed
    qed
    have last: "l2 = lca \<or> l2 \<in> fst ` set buf"
      using ih inkeys by (auto simp: keys_delete)
    from ih le m sub cov last show ?thesis by (simp add: eq)
  qed
qed


lemma delivered_seqnos_append:
  "delivered_seqnos (xs @ ys) = delivered_seqnos xs @ delivered_seqnos ys"
  by (induction xs rule: delivered_seqnos.induct) simp_all

lemma delivered_seqnos_process:
  "delivered_seqnos (map (\<lambda>(k, p). process_packet k p) ds) = map fst ds"
  by (induction ds) (auto simp: process_packet_def)

lemma acks_sent_process:
  "acks_sent (map (\<lambda>(k, p). process_packet k p) ds @ xs) = acks_sent xs"
  by (induction ds) (auto simp: process_packet_def)

lemma acks_sent_process_Cons: "acks_sent (process_packet k p # xs) = acks_sent xs"
  by (simp add: process_packet_def)

lemma delivered_seqnos_process_Cons:
  "delivered_seqnos (process_packet k p # xs) = k # delivered_seqnos xs"
  by (simp add: process_packet_def)

lemma server_init_inv: "server_inv server_init"
  by (simp add: server_inv_def server_init_def)

lemma server_step_short:
  "length packet < 8 \<Longrightarrow> server_step (packet, a) st = ([], st, Crashed StructError)"
  by (simp add: server_step_def unpack_II_def)

text \<open>
  An in-order datagram: its packet and the drained ones are delivered in order, exactly
  one acknowledgment goes back to the sender, and the iteration does not raise.
\<close>

lemma server_step_in_order:
  assumes inv: "server_inv st" and len: "8 \<le> length packet"
    and s: "seqno_of packet = last_cum_ack st + 1"
    and step: "server_step (packet, a) st = (evs, st', r)"
  shows "server_inv st' \<and> last_cum_ack st \<le> last_cum_ack st'
    \<and> delivered_seqnos evs = [last_cum_ack st + 1 .. last_cum_ack st'] \<and> r = Running
    \<and> covered st' (seqno_of packet) \<and> (\<forall>x. covered st x \<longrightarrow> covered st' x)
    \<and> (\<exists>ack. acks_sent evs = [(a, ack)])"
proof -
  let ?s = "seqno_of packet"
  let ?buf = "out_of_order_packets st"
  obtain l2 b2 d2 where dr: "drain ?s ?buf = (l2, b2, d2)"
    by (cases "drain ?s ?buf") auto
  have pre: "\<forall>k\<in>fst ` set ?buf. ?s < k"
    using inv s by (auto simp: server_inv_def)
  note d = drain_spec [OF pre dr]
  have rng: "0 \<le> ?s \<and> ?s < 2 ^ 32" using len by (rule seqno_of_range)
  have l2hi: "l2 < 2 ^ 32"
    using d rng inv by (auto simp: server_inv_def)
  have l2lo: "0 \<le> l2" using d rng by simp
  have ack: "send_cum_ack a l2 = Inr (SendAck a (be_bytes 0xAAAAAAAA @ be_bytes l2))"
    using l2hi l2lo by (simp add: send_cum_ack_def pack_II_def)
  from step have res: "evs = (process_packet ?s (drop 8 packet)
        # map (\<lambda>(k, p). process_packet k p) d2) @ [SendAck a (be_bytes 0xAAAAAAAA @ be_bytes l2)]"
      "st' = st\<lparr> last_cum_ack := l2, out_of_order_packets := b2 \<rparr>" "r = Running"
    using len dr ack by (simp_all add: server_step_def unpack_hdr s [symmetric] Let_def)
  have keys': "\<forall>k\<in>fst ` set b2. l2 + 1 < k \<and> k < 2 ^ 32"
  proof
    fix k assume k: "k \<in> fst ` set b2"
    with d have "k \<in> fst ` set ?buf" by blast
    with inv have "k < 2 ^ 32" unfolding server_inv_def by blast
    moreover from d k have "l2 + 1 < k" by blast
    ultimately show "l2 + 1 < k \<and> k < 2 ^ 32" by simp
  qed
  have inv': "server_inv st'"
    using keys' l2hi l2lo unfolding res server_inv_def by simp
  have "[?s .. l2] = ?s # [?s + 1 .. l2]" using d by (simp add: upto_rec1)
  then have del: "delivered_seqnos evs = [last_cum_ack st + 1 .. last_cum_ack st']"
    using d s unfolding res
    by (simp add: delivered_seqnos_append delivered_seqnos_process delivered_seqnos_process_Cons)
  have cov: "\<forall>x. covered st x \<longrightarrow> covered st' x"
    using d s unfolding res covered_def by auto
  have "acks_sent evs = [(a, be_bytes 0xAAAAAAAA @ be_bytes l2)]"
    unfolding res by (simp add: acks_sent_process acks_sent_process_Cons)
  with inv' del cov d s res show ?thesis by (auto simp: covered_def)
qed

lemma server_step_ahead:
  "8 \<le> length packet \<Longrightarrow> last_cum_ack st + 1 < seqno_of packet \<Longrightarrow>
   server_step (packet, a) st =
     ([], st\<lparr> out_of_order_packets :=
         AList.update (seqno_of packet) (drop 8 packet) (out_of_order_packets st) \<rparr>, Running)"
  by (simp add: server_step_def unpack_hdr)

lemma server_step_behind:
  "8 \<le> length packet \<Longrightarrow> seqno_of packet \<le> last_cum_ack st \<Longrightarrow>
   server_step (packet, a) st = ([], st, Running)"
  by (simp add: server_step_def unpack_hdr)

lemma server_step_inv:
  assumes inv: "server_inv st" and step: "server_step (packet, a) st = (evs, st', r)"
  shows "server_inv st' \<and> last_cum_ack st \<le> last_cum_ack st'
    \<and> delivered_seqnos evs = [last_cum_ack st + 1 .. last_cum_ack st']
    \<and> (\<forall>x. covered st x \<longrightarrow> covered st' x)
    \<and> (8 \<le> length packet \<longrightarrow> r = Running \<and> covered st' (seqno_of packet))"
proof (cases "length packet < 8")
  case True
  with step show ?thesis using inv by (simp add: server_step_short)
next
  case False
  then have len: "8 \<le> length packet" by simp
  consider (eq) "seqno_of packet = last_cum_ack st + 1"
    | (gt) "last_cum_ack st + 1 < seqno_of packet"
    | (le) "seqno_of packet \<le> last_cum_ack st" by linarith
  then show ?thesis
  proof cases
    case eq
    from server_step_in_order [OF inv len eq step] show ?thesis by blast
  next
    case gt
    from step have res: "evs = []" "r = Running"
      "st' = st\<lparr> out_of_order_packets :=
         AList.update (seqno_of packet) (drop 8 packet) (out_of_order_packets st) \<rparr>"
      using server_step_ahead [OF len gt, of a] by simp_all
    show ?thesis using inv gt seqno_of_range [OF len] unfolding res
      by (auto simp: server_inv_def covered_def dom_update)
  next
    case le
    from step have res: "evs = []" "r = Running" "st' = st"
      using server_step_behind [OF len le, of a] by simp_all
    show ?thesis using inv le len unfolding res by (simp add: covered_def)
  qed
qed


lemma upto_join: "a \<le> b \<Longrightarrow> b \<le> c \<Longrightarrow> [a + 1 .. b] @ [b + 1 .. c] = [a + 1 .. (c::int)]"
proof (cases "b = c")
  case True then show ?thesis by simp
next
  case False
  assume "a \<le> b" "b \<le> c"
  with False have "a + 1 \<le> b + 1" "b + 1 \<le> c" by simp_all
  from upto_split1 [OF this] show ?thesis by simp
qed

lemma server_run_Nil: "server_run [] st = ([], st, Running)"
  by (simp add: server_run_def)

lemma server_run_Cons:
  "server_run (p # ps) st =
     (case server_step p st of
        (evs, st', Running) \<Rightarrow> (case server_run ps st' of (evs', res) \<Rightarrow> (evs @ evs', res))
      | (evs, st', Finished) \<Rightarrow> (evs, st', Finished)
      | (evs, st', Crashed err) \<Rightarrow> (evs, st', Crashed err))"
  unfolding server_run_def by simp

text \<open>
  Over a whole run the deliveries are the sequence numbers from the old frontier
  (exclusive) to the new one (inclusive), in order; a run over datagrams of at least 8
  bytes never raises, and each of their sequence numbers ends up delivered or buffered.
\<close>

lemma server_run_inv:
  "server_inv st \<Longrightarrow> server_run ps st = (evs, st', r) \<Longrightarrow>
   server_inv st' \<and> last_cum_ack st \<le> last_cum_ack st'
   \<and> delivered_seqnos evs = [last_cum_ack st + 1 .. last_cum_ack st']
   \<and> (\<forall>x. covered st x \<longrightarrow> covered st' x)
   \<and> ((\<forall>p\<in>set ps. 8 \<le> length (fst p)) \<longrightarrow>
        r = Running \<and> (\<forall>p\<in>set ps. covered st' (seqno_of (fst p))))"
proof (induction ps arbitrary: st evs st' r)
  case Nil
  then show ?case by (simp add: server_run_Nil)
next
  case (Cons p ps)
  obtain packet a where p: "p = (packet, a)" by (cases p) auto
  obtain e1 s1 r1 where step: "server_step (packet, a) st = (e1, s1, r1)"
    by (cases "server_step (packet, a) st") auto
  note h = server_step_inv [OF Cons.prems(1) step]
  show ?case
  proof (cases r1)
    case Running
    obtain e2 s2 r2 where run: "server_run ps s1 = (e2, s2, r2)"
      by (cases "server_run ps s1") auto
    from h have inv1: "server_inv s1" by simp
    note ih = Cons.IH [OF inv1 run]
    from Cons.prems(2) have res: "evs = e1 @ e2" "st' = s2" "r = r2"
      by (simp_all add: server_run_Cons p step Running run)
    have del: "delivered_seqnos evs = [last_cum_ack st + 1 .. last_cum_ack st']"
      using h ih upto_join [of "last_cum_ack st" "last_cum_ack s1" "last_cum_ack s2"]
      by (simp add: res delivered_seqnos_append)
    have cov: "\<forall>x. covered st x \<longrightarrow> covered st' x" using h ih by (simp add: res)
    have wf: "(\<forall>q\<in>set (p # ps). 8 \<le> length (fst q)) \<longrightarrow>
        r = Running \<and> (\<forall>q\<in>set (p # ps). covered st' (seqno_of (fst q)))"
      using h ih by (simp add: res p)
    from h ih del cov wf show ?thesis by (simp add: res)
  next
    case Finished
    from Cons.prems(2) have res: "evs = e1" "st' = s1" "r = Finished"
      by (simp_all add: server_run_Cons p step Finished)
    from h show ?thesis by (simp add: res p Finished)
  next
    case (Crashed err)
    from Cons.prems(2) have res: "evs = e1" "st' = s1" "r = Crashed err"
      by (simp_all add: server_run_Cons p step Crashed)
    from h show ?thesis by (simp add: res p Crashed)
  qed
qed

section \<open>The receiver: the claims\<close>

text \<open>
  Claim C1 (one cumulative acknowledgment per received datagram) evaluated on the code.
  The receiver gets sequence number 0, then 2 (ahead of order), then 0 again (a
  duplicate): three datagrams processed, and a single acknowledgment sent, for the first
  one. \<open>send_cum_ack\<close> is called in the in-order branch only.
\<close>

theorem C1_ack_only_when_in_order:
  "server_run [(data_packet 0 7, client_addr0), (data_packet 2 9, client_addr0),
               (data_packet 0 7, client_addr0)] server_init
   = ([Deliver 0 [7], SendAck client_addr0 (ack_packet 0)],
      \<lparr> last_cum_ack = 0, out_of_order_packets = [(2, [9])] \<rparr>, Running)"
  by (simp add: server_eval codec_eval fixture_eval)

text \<open>
  Claim C2 as stated fails: with sequence number 0 delivered already, a second datagram
  with sequence number 0 produces no call to the sink at all; over the two arrivals
  the sink is called once.
\<close>

theorem C2_duplicate_not_delivered:
  "server_step (data_packet 0 7, client_addr0) \<lparr> last_cum_ack = 0, out_of_order_packets = [] \<rparr>
     = ([], \<lparr> last_cum_ack = 0, out_of_order_packets = [] \<rparr>, Running)
   \<and> delivered_seqnos (events_of (server_run
        [(data_packet 0 7, client_addr0), (data_packet 0 7, client_addr0)] server_init)) = [0]"
  by (simp add: server_eval codec_eval fixture_eval loop_eval)

text \<open>
  Claim C2, amended: a datagram whose sequence number is at most \<open>last_cum_ack\<close> is ignored.
  The sink is not called, and the frontier and the reorder buffer stay as they are.
\<close>

theorem C2_duplicate_ignored:
  "8 \<le> length packet \<Longrightarrow> seqno_of packet \<le> last_cum_ack st \<Longrightarrow>
   server_step (packet, client_addr) st = ([], st, Running)"
  by (rule server_step_behind)

text \<open>
  The amended claim C2 at a concrete duplicate.
\<close>

theorem C2_duplicate_ignored_witness:
  "8 \<le> length (data_packet 0 7) \<and> seqno_of (data_packet 0 7) \<le> last_cum_ack \<lparr> last_cum_ack = 0, out_of_order_packets = [] \<rparr>
   \<and> server_step (data_packet 0 7, client_addr0) \<lparr> last_cum_ack = 0, out_of_order_packets = [] \<rparr>
     = ([], \<lparr> last_cum_ack = 0, out_of_order_packets = [] \<rparr>, Running)"
  using C2_duplicate_ignored [of "data_packet 0 7" "\<lparr> last_cum_ack = 0, out_of_order_packets = [] \<rparr>" client_addr0]
  by (simp add: seqno_of_def codec_eval fixture_eval)

text \<open>
  Claim C3 as stated fails: a 3-byte datagram ends the receiver with the
  \<open>struct.error\<close> of \<open>struct.unpack\<close>, and the well-formed datagram that follows it, which
  alone would be delivered and acknowledged, is never processed.
\<close>

theorem C3_short_datagram_stops_receiver:
  "server_run [([1, 2, 3], client_addr0), (data_packet 0 7, client_addr0)] server_init
     = ([], server_init, Crashed StructError)
   \<and> server_run [(data_packet 0 7, client_addr0)] server_init
     = ([Deliver 0 [7], SendAck client_addr0 (ack_packet 0)],
        \<lparr> last_cum_ack = 0, out_of_order_packets = [] \<rparr>, Running)"
  by (simp add: server_eval codec_eval fixture_eval)

text \<open>
  Claim C3, amended: for a datagram shorter than the 8-byte header nothing is delivered
  and no acknowledgment is sent, and the uncaught \<open>struct.error\<close> terminates the receiver:
  the datagrams that follow are not processed.
\<close>

theorem C3_short_datagram_fatal:
  "length packet < 8 \<Longrightarrow>
   server_step (packet, client_addr) st = ([], st, Crashed StructError)
   \<and> server_run ((packet, client_addr) # rest) st = ([], st, Crashed StructError)"
  by (simp add: server_run_Cons server_step_short)

text \<open>
  The amended claim C3 at a concrete short datagram.
\<close>

theorem C3_short_datagram_fatal_witness:
  "length [1, 2, 3 :: byte] < 8
   \<and> server_run [([1, 2, 3], client_addr0), (data_packet 0 7, client_addr0)] server_init
     = ([], server_init, Crashed StructError)"
  using C3_short_datagram_fatal [of "[1, 2, 3]" client_addr0 server_init "[(data_packet 0 7, client_addr0)]"]
  by simp

text \<open>
  Claim C4: the sequence numbers handed to the sink are exactly \<open>0, 1, 2, ...\<close> up to the
  frontier, without gap or reordering, whatever arrives; and when the datagrams are
  well formed (at least 8 bytes each) and every sequence number of \<open>0 .. k\<close> is among
  them, in any order and with any duplicates, the receiver is still running and has
  delivered up to \<open>k\<close> at least.
\<close>

theorem C4_in_order_delivery:
  "delivered_seqnos (events_of (server_run ps server_init))
     = [0 .. last_cum_ack (state_of (server_run ps server_init))]
   \<and> ((\<forall>p\<in>set ps. 8 \<le> length (fst p)) \<and> (\<forall>i\<in>{0..k}. \<exists>p\<in>set ps. seqno_of (fst p) = i)
        \<longrightarrow> status_of (server_run ps server_init) = Running
          \<and> k \<le> last_cum_ack (state_of (server_run ps server_init)))"
proof -
  obtain evs st r where run: "server_run ps server_init = (evs, st, r)"
    by (cases "server_run ps server_init") auto
  note h = server_run_inv [OF server_init_inv run]
  have first: "delivered_seqnos evs = [0 .. last_cum_ack st]"
    using h by (simp add: server_init_def)
  have second: "r = Running \<and> k \<le> last_cum_ack st"
    if wf: "\<forall>p\<in>set ps. 8 \<le> length (fst p)"
      and all: "\<forall>i\<in>{0..k}. \<exists>p\<in>set ps. seqno_of (fst p) = i"
  proof -
    from h wf have run': "r = Running" and cov: "\<forall>p\<in>set ps. covered st (seqno_of (fst p))"
      by simp_all
    have "k \<le> last_cum_ack st"
    proof (rule ccontr)
      assume "\<not> k \<le> last_cum_ack st"
      moreover from h have "- 1 \<le> last_cum_ack st" by (simp add: server_inv_def)
      ultimately have "last_cum_ack st + 1 \<in> {0..k}" by simp
      with all obtain p where "p \<in> set ps" "seqno_of (fst p) = last_cum_ack st + 1" by blast
      with cov have "covered st (last_cum_ack st + 1)" by fastforce
      moreover from h have "\<forall>k\<in>fst ` set (out_of_order_packets st). last_cum_ack st + 1 < k"
        by (simp add: server_inv_def)
      ultimately show False by (auto simp: covered_def)
    qed
    with run' show ?thesis by simp
  qed
  show ?thesis using first second by (auto simp: run events_of_def state_of_def status_of_def)
qed

text \<open>
  Claim C4 on the arrival order 0, 2, 1, 2, 3.
\<close>

theorem C4_in_order_delivery_witness:
  "map (length \<circ> fst) [(data_packet 0 7, client_addr0), (data_packet 2 9, client_addr0),
           (data_packet 1 8, client_addr0), (data_packet 2 9, client_addr0),
           (data_packet 3 6, client_addr0)] = [9, 9, 9, 9, 9]
   \<and> map (seqno_of \<circ> fst) [(data_packet 0 7, client_addr0), (data_packet 2 9, client_addr0),
           (data_packet 1 8, client_addr0), (data_packet 2 9, client_addr0),
           (data_packet 3 6, client_addr0)] = [0, 2, 1, 2, 3]
   \<and> delivered_seqnos (events_of (server_run
          [(data_packet 0 7, client_addr0), (data_packet 2 9, client_addr0),
           (data_packet 1 8, client_addr0), (data_packet 2 9, client_addr0),
           (data_packet 3 6, client_addr0)] server_init)) = [0, 1, 2, 3]
   \<and> status_of (server_run
          [(data_packet 0 7, client_addr0), (data_packet 2 9, client_addr0),
           (data_packet 1 8, client_addr0), (data_packet 2 9, client_addr0),
           (data_packet 3 6, client_addr0)] server_init) = Running
   \<and> 3 \<le> last_cum_ack (state_of (server_run
          [(data_packet 0 7, client_addr0), (data_packet 2 9, client_addr0),
           (data_packet 1 8, client_addr0), (data_packet 2 9, client_addr0),
           (data_packet 3 6, client_addr0)] server_init))"
proof -
  let ?ps = "[(data_packet 0 7, client_addr0), (data_packet 2 9, client_addr0),
           (data_packet 1 8, client_addr0), (data_packet 2 9, client_addr0),
           (data_packet 3 6, client_addr0)]"
  have rng: "{0..3::int} = {0, 1, 2, 3}" by auto
  have len: "\<forall>p\<in>set ?ps. 8 \<le> length (fst p)"
    by (simp add: fixture_eval)
  have all: "\<forall>i\<in>{0..3}. \<exists>p\<in>set ?ps. seqno_of (fst p) = i"
    by (simp add: rng seqno_of_def codec_eval fixture_eval)
  have maps: "map (length \<circ> fst) ?ps = [9, 9, 9, 9, 9]"
    "map (seqno_of \<circ> fst) ?ps = [0, 2, 1, 2, 3]"
    by (simp_all add: seqno_of_def codec_eval fixture_eval)
  from C4_in_order_delivery [of ?ps 3] len all
  have run: "delivered_seqnos (events_of (server_run ?ps server_init))
        = [0 .. last_cum_ack (state_of (server_run ?ps server_init))]"
    "status_of (server_run ?ps server_init) = Running"
    "3 \<le> last_cum_ack (state_of (server_run ?ps server_init))"
    by blast+
  have "last_cum_ack (state_of (server_run ?ps server_init)) = 3"
    by (simp add: server_eval codec_eval fixture_eval loop_eval)
  with run have "delivered_seqnos (events_of (server_run ?ps server_init)) = [0, 1, 2, 3]"
    by (simp add: upto.simps)
  with maps run show ?thesis by simp
qed

section \<open>The senders: dictionary operations and invariants\<close>

lemma drop_step_keys:
  "fst ` set (if map_of d i \<noteq> None then AList.delete i d else d) = fst ` set d - {i}"
  by (auto simp: keys_delete map_of_keys)

lemma fold_drop_keys:
  "fst ` set (fold (\<lambda>i d. if map_of d i \<noteq> None then AList.delete i d else d) ks out)
     = fst ` set out - set ks"
proof (induction ks arbitrary: out)
  case Nil show ?case by simp
next
  case (Cons k ks)
  show ?case unfolding fold_simps Cons.IH drop_step_keys by auto
qed

lemma fold_drop_length:
  "length (fold (\<lambda>i d. if map_of d i \<noteq> None then AList.delete i d else d) ks out) \<le> length out"
proof (induction ks arbitrary: out)
  case Nil show ?case by simp
next
  case (Cons k ks)
  have "length (if map_of out k \<noteq> None then AList.delete k out else out) \<le> length out"
    by (simp add: length_delete_le)
  with Cons.IH [of "if map_of out k \<noteq> None then AList.delete k out else out"]
  show ?case by simp
qed

lemma fold_drop_distinct:
  "distinct (map fst out) \<Longrightarrow>
   distinct (map fst (fold (\<lambda>i d. if map_of d i \<noteq> None then AList.delete i d else d) ks out))"
proof (induction ks arbitrary: out)
  case Nil then show ?case by simp
next
  case (Cons k ks)
  from Cons.prems have "distinct (map fst (if map_of out k \<noteq> None then AList.delete k out else out))"
    by (simp add: distinct_delete)
  from Cons.IH [OF this] show ?case by simp
qed

lemma drop_acked_keys: "fst ` set (drop_acked lo hi out) = fst ` set out - {lo..hi}"
  unfolding drop_acked_def fold_drop_keys by simp

lemma drop_acked_length: "length (drop_acked lo hi out) \<le> length out"
  unfolding drop_acked_def by (rule fold_drop_length)

lemma drop_acked_distinct:
  "distinct (map fst out) \<Longrightarrow> distinct (map fst (drop_acked lo hi out))"
  unfolding drop_acked_def by (rule fold_drop_distinct)

lemma update_length:
  "length (AList.update k v al) = (if k \<in> fst ` set al then length al else Suc (length al))"
  by (induction al) auto

lemma update_length_le: "length (AList.update k v al) \<le> Suc (length al)"
  by (simp add: update_length)

lemma acted_upon_append: "acted_upon (xs @ ys) = acted_upon xs @ acted_upon ys"
  by (induction xs rule: acted_upon.induct) simp_all

lemma acted_upon_resend: "acted_upon (fst (resend_all ks out)) = []"
  by (induction ks) (auto split: option.splits prod.splits)

lemma resend_all_timeout_free: "RecvTimeout \<notin> set (fst (resend_all ks out))"
  by (induction ks) (auto split: option.splits prod.splits)

lemma client2_init_window: "1 \<le> n \<Longrightarrow> window_inv n client2_init"
  by (simp add: window_inv_def client2_init_def)

lemma await_data_window:
  "window_inv n st \<Longrightarrow> state st = 0 \<Longrightarrow> await_data e st = (evs, st', r) \<Longrightarrow> window_inv n st'"
  by (auto simp: await_data_def window_inv_def split: option.splits)

lemma send_one_window:
  assumes "window_inv n st" "state st = 1" "send_one n st = (evs, st', r)"
  shows "window_inv n st'"
proof -
  have "length (AList.update k v (outstanding st)) \<le> Suc (length (outstanding st))" for k v
    by (rule update_length_le)
  moreover have "int (length (outstanding st)) < n"
    using assms(1,2) by (simp add: window_inv_def)
  ultimately have "int (length (AList.update k v (outstanding st))) \<le> n" for k v
  proof -
    assume a: "\<And>k v. length (AList.update k v (outstanding st)) \<le> Suc (length (outstanding st))"
      and b: "int (length (outstanding st)) < n"
    from a [of k v] have "int (length (AList.update k v (outstanding st)))
        \<le> int (length (outstanding st)) + 1" by simp
    with b show ?thesis by simp
  qed
  then show ?thesis using assms
    by (auto simp: send_one_def window_inv_def Let_def distinct_update
        split: option.splits sum.splits if_splits)
qed


lemma client2_await_ack_window:
  assumes "window_inv n st" "client2_await_ack n e st = (evs, st', r)"
  shows "window_inv n st'"
proof -
  have "int (length (drop_acked lo hi (outstanding st))) \<le> n" for lo hi
    using drop_acked_length [of lo hi "outstanding st"] assms(1)
    by (simp add: window_inv_def)
  then show ?thesis using assms
    by (auto simp: client2_await_ack_def window_inv_def Let_def drop_acked_distinct
        split: recv_result.splits sum.splits if_splits)
qed

lemma client2_retransmit_window:
  "window_inv n st \<Longrightarrow> client2_retransmit st = (evs, st', r) \<Longrightarrow> window_inv n st'"
  by (auto simp: client2_retransmit_def window_inv_def split: option.splits prod.splits)

lemma client2_iter_window:
  assumes "window_inv n st" "client2_iter n e st = (evs, st', r)"
  shows "window_inv n st'"
proof -
  consider (stop) "\<not> (have_more_data st \<or> 0 < length (outstanding st))"
    | (s0) "have_more_data st \<or> 0 < length (outstanding st)" "state st = 0"
    | (s1) "have_more_data st \<or> 0 < length (outstanding st)" "state st = 1"
    | (s2) "have_more_data st \<or> 0 < length (outstanding st)" "state st = 2"
    | (s3) "have_more_data st \<or> 0 < length (outstanding st)" "state st = 3"
    | (other) "have_more_data st \<or> 0 < length (outstanding st)"
        "state st \<noteq> 0" "state st \<noteq> 1" "state st \<noteq> 2" "state st \<noteq> 3"
    by blast
  then show ?thesis
  proof cases
    case stop with assms show ?thesis by (simp add: client2_iter_def)
  next
    case s0 with assms show ?thesis
      by (auto simp: client2_iter_def client2_step_def dest: await_data_window)
  next
    case s1 with assms show ?thesis
      by (auto simp: client2_iter_def client2_step_def dest: send_one_window)
  next
    case s2 with assms show ?thesis
      by (auto simp: client2_iter_def client2_step_def dest: client2_await_ack_window)
  next
    case s3 with assms show ?thesis
      by (auto simp: client2_iter_def client2_step_def dest: client2_retransmit_window)
  next
    case other with assms show ?thesis by (simp add: client2_iter_def client2_step_def)
  qed
qed

lemma acks_rel_refl: "acks_rel s [] s"
  by (simp add: acks_rel_def)

lemma acks_rel_trans: "acks_rel s e1 s1 \<Longrightarrow> acks_rel s1 e2 s2 \<Longrightarrow> acks_rel s (e1 @ e2) s2"
  unfolding acks_rel_def acted_upon_append sorted_wrt_append by fastforce

lemma swnd_rel_refl: "swnd_rel s [] s"
  by (simp add: swnd_rel_def)

lemma swnd_rel_trans: "swnd_rel s e1 s1 \<Longrightarrow> swnd_rel s1 e2 s2 \<Longrightarrow> swnd_rel s (e1 @ e2) s2"
  unfolding swnd_rel_def acted_upon_append by auto

lemma resend_all_acted: "resend_all ks out = (evs, x) \<Longrightarrow> acted_upon evs = []"
  using acted_upon_resend [of ks out] by simp

lemma await_data_acks: "await_data e st = (evs, st', r) \<Longrightarrow> acks_rel st evs st'"
  by (auto simp: await_data_def acks_rel_def split: option.splits)

lemma send_one_acks: "send_one w st = (evs, st', r) \<Longrightarrow> acks_rel st evs st'"
  by (auto simp: send_one_def acks_rel_def Let_def split: option.splits sum.splits)

lemma client2_await_ack_acks: "client2_await_ack n e st = (evs, st', r) \<Longrightarrow> acks_rel st evs st'"
  by (auto simp: client2_await_ack_def acks_rel_def Let_def
      split: recv_result.splits sum.splits if_splits)

lemma client2_retransmit_acks: "client2_retransmit st = (evs, st', r) \<Longrightarrow> acks_rel st evs st'"
  by (auto simp: client2_retransmit_def acks_rel_def dest: resend_all_acted
      split: option.splits prod.splits)

lemma client2_iter_acks: "client2_iter n e st = (evs, st', r) \<Longrightarrow> acks_rel st evs st'"
  unfolding client2_iter_def client2_step_def
  by (auto simp: acks_rel_refl split: if_splits
      dest: await_data_acks send_one_acks client2_await_ack_acks client2_retransmit_acks)

lemma client2_run_acks:
  "acks_rel st (events_of (client2_run n es st)) (state_of (client2_run n es st))"
  unfolding client2_run_def
  using run_loop_rel [where I = "\<lambda>_. True" and P = acks_rel and f = "client2_iter n" and st = st]
    client2_iter_acks acks_rel_refl acks_rel_trans
  by blast

lemma client3_init_inv: "client3_inv client3_init"
  by (simp add: client3_inv_def client3_init_def)

lemma client3_await_ack_acks:
  "client3_inv st \<Longrightarrow> client3_await_ack e st = (evs, st', r) \<Longrightarrow> acks_rel st evs st'"
  by (auto simp: client3_await_ack_def acks_rel_def client3_inv_def Let_def
      split: recv_result.splits sum.splits if_splits)

lemma client3_retransmit_acks: "client3_retransmit st = (evs, st', r) \<Longrightarrow> acks_rel st evs st'"
  by (auto simp: client3_retransmit_def acks_rel_def split: option.splits)

lemma client3_iter_acks:
  "client3_inv st \<Longrightarrow> client3_iter e st = (evs, st', r) \<Longrightarrow> acks_rel st evs st'"
  unfolding client3_iter_def client3_step_def
  by (auto simp: acks_rel_refl split: if_splits
      dest: await_data_acks send_one_acks client3_await_ack_acks client3_retransmit_acks)

lemma await_data_inv3:
  "client3_inv st \<Longrightarrow> await_data e st = (evs, st', r) \<Longrightarrow> client3_inv st'"
  by (auto simp: await_data_def client3_inv_def split: option.splits)

lemma send_one_inv3:
  "client3_inv st \<Longrightarrow> send_one (swnd st) st = (evs, st', r) \<Longrightarrow> client3_inv st'"
  by (auto simp: send_one_def client3_inv_def Let_def split: option.splits sum.splits if_splits)

lemma client3_await_ack_inv3:
  "client3_inv st \<Longrightarrow> state st = 2 \<Longrightarrow> client3_await_ack e st = (evs, st', r) \<Longrightarrow> client3_inv st'"
  by (auto simp: client3_await_ack_def client3_inv_def Let_def
      split: recv_result.splits sum.splits if_splits)

lemma client3_retransmit_inv3:
  assumes "client3_inv st" "state st = 3" "client3_retransmit st = (evs, st', r)"
  shows "client3_inv st'"
proof (cases "map_of (outstanding st) (desired_ackno st)")
  case None
  with assms show ?thesis by (auto simp: client3_retransmit_def client3_inv_def)
next
  case (Some pkt)
  then have "outstanding st \<noteq> []" by auto
  then have "0 < length (outstanding st)" by simp
  with Some assms show ?thesis by (auto simp: client3_retransmit_def client3_inv_def)
qed

lemma client3_iter_inv3:
  assumes "client3_inv st" "client3_iter e st = (evs, st', r)"
  shows "client3_inv st'"
proof -
  consider (stop) "\<not> (have_more_data st \<or> 0 < length (outstanding st))"
    | (s0) "have_more_data st \<or> 0 < length (outstanding st)" "state st = 0"
    | (s1) "have_more_data st \<or> 0 < length (outstanding st)" "state st = 1"
    | (s2) "have_more_data st \<or> 0 < length (outstanding st)" "state st = 2"
    | (s3) "have_more_data st \<or> 0 < length (outstanding st)" "state st = 3"
    | (other) "have_more_data st \<or> 0 < length (outstanding st)"
        "state st \<noteq> 0" "state st \<noteq> 1" "state st \<noteq> 2" "state st \<noteq> 3"
    by blast
  then show ?thesis
  proof cases
    case stop with assms show ?thesis by (simp add: client3_iter_def)
  next
    case s0 with assms show ?thesis
      by (auto simp: client3_iter_def client3_step_def dest: await_data_inv3)
  next
    case s1 with assms show ?thesis
      by (auto simp: client3_iter_def client3_step_def dest: send_one_inv3)
  next
    case s2 with assms show ?thesis
      by (auto simp: client3_iter_def client3_step_def dest: client3_await_ack_inv3)
  next
    case s3 with assms show ?thesis
      by (auto simp: client3_iter_def client3_step_def dest: client3_retransmit_inv3)
  next
    case other with assms show ?thesis by (simp add: client3_iter_def client3_step_def)
  qed
qed

lemma client3_run_acks:
  assumes "client3_inv st"
  shows "client3_inv (state_of (client3_run es st))
    \<and> acks_rel st (events_of (client3_run es st)) (state_of (client3_run es st))"
  unfolding client3_run_def
proof (rule run_loop_rel [where I = client3_inv and P = acks_rel])
  fix i s evs s' r
  assume "client3_inv s" "client3_iter i s = (evs, s', r)"
  then show "client3_inv s' \<and> acks_rel s evs s'"
    using client3_iter_inv3 client3_iter_acks by blast
qed (rule acks_rel_refl, erule (1) acks_rel_trans, rule assms)

lemma client3_iter_swnd: "client3_iter e st = (evs, st', r) \<Longrightarrow> swnd_rel st evs st'"
  unfolding client3_iter_def client3_step_def swnd_rel_def
  by (auto simp: await_data_def send_one_def client3_await_ack_def Let_def
      split: if_splits option.splits sum.splits recv_result.splits)

lemma client3_run_swnd:
  "swnd_rel st (events_of (client3_run es st)) (state_of (client3_run es st))"
  unfolding client3_run_def
  using run_loop_rel [where I = "\<lambda>_. True" and P = swnd_rel and f = client3_iter and st = st]
    client3_iter_swnd swnd_rel_refl swnd_rel_trans
  by blast

lemma resend_all_complete:
  "set ks \<subseteq> fst ` set out \<Longrightarrow> snd (resend_all ks out) = None"
proof (induction ks)
  case Nil show ?case by simp
next
  case (Cons k ks)
  then obtain pkt where "map_of out k = Some pkt"
    by (metis map_of_keys option.exhaust list.set_intros(1) subsetD)
  moreover from Cons have "snd (resend_all ks out) = None" by simp
  ultimately show ?case by (cases "resend_all ks out") simp
qed

lemma client2_init_range: "range_inv client2_init"
  by (simp add: range_inv_def client2_init_def)

lemma client2_iter_range:
  assumes "range_inv st" "client2_iter n e st = (evs, st', r)"
  shows "range_inv st'"
proof -
  have a: "range_inv s'" if "range_inv s" "await_data e s = (evs, s', r)" for s s' :: client2_state
    using that by (auto simp: await_data_def range_inv_def split: option.splits)
  have b: "range_inv s'" if "range_inv s" "send_one n s = (evs, s', r)" for s s' :: client2_state
    using that
    by (auto simp: send_one_def range_inv_def Let_def dom_update split: option.splits sum.splits)
      (metis less_le)
  have c: "range_inv s'" if "range_inv s" "client2_await_ack n e s = (evs, s', r)" for s s'
    using that
    by (auto simp: client2_await_ack_def range_inv_def Let_def drop_acked_keys
        split: recv_result.splits sum.splits if_splits)
  have d: "range_inv s'" if "range_inv s" "client2_retransmit s = (evs, s', r)" for s s'
    using that
    by (auto simp: client2_retransmit_def range_inv_def split: option.splits prod.splits)
  consider (stop) "client2_iter n e st = ([], st, Finished)"
    | (s0) "client2_iter n e st = await_data e st"
    | (s1) "client2_iter n e st = send_one n st"
    | (s2) "client2_iter n e st = client2_await_ack n e st"
    | (s3) "client2_iter n e st = client2_retransmit st"
    unfolding client2_iter_def client2_step_def by presburger
  then show ?thesis
  proof cases
    case stop with assms show ?thesis by simp
  next
    case s0 with assms a show ?thesis by metis
  next
    case s1 with assms b show ?thesis by metis
  next
    case s2 with assms c show ?thesis by metis
  next
    case s3 with assms d show ?thesis by metis
  qed
qed

lemma client2_run_range: "range_inv (state_of (client2_run n es client2_init))"
  unfolding client2_run_def
  by (rule run_loop_inv [where I = range_inv]) (erule (1) client2_iter_range, rule client2_init_range)

text \<open>
  In a state reached from the initial one, the burst retransmission of the fixed-window
  client finds every key it indexes.
\<close>

lemma client2_retransmit_no_key_error:
  assumes "st = state_of (client2_run n es client2_init)"
  shows "status_of (client2_retransmit st) = Running"
proof -
  have "range_inv st" unfolding assms by (rule client2_run_range)
  then have "set [desired_ackno st .. seqno st - 1] \<subseteq> fst ` set (outstanding st)"
    by (auto simp: range_inv_def)
  from resend_all_complete [OF this] show ?thesis
    by (cases "resend_all [desired_ackno st .. seqno st - 1] (outstanding st)")
      (simp add: client2_retransmit_def status_of_def)
qed

section \<open>The senders: the claims\<close>

text \<open>
  Claim C5: while a sender waits for an acknowledgment (state 2), an acknowledgment below
  \<open>desired_ackno\<close> leaves every variable as it is and the sender in state 2: in the
  fixed-window client from any state, in the adaptive-window client from any state it
  reaches from its initial one.
\<close>

theorem C5_stale_ack_discarded:
  assumes "recvfrom e = Datagram ack" and "unpack_II ack = Inr (magack, ackno)"
  shows "(state s2 = 2 \<and> (have_more_data s2 \<or> 0 < length (outstanding s2))
            \<and> ackno < desired_ackno s2
          \<longrightarrow> client2_iter n e s2 = ([AckStale ackno], s2, Running))
       \<and> (s3 = state_of (client3_run es client3_init) \<and> state s3 = 2
            \<and> (have_more_data s3 \<or> 0 < length (outstanding s3)) \<and> ackno < desired_ackno s3
          \<longrightarrow> client3_iter e s3 = ([AckStale ackno], s3, Running))"
proof (intro conjI impI)
  assume h: "state s2 = 2 \<and> (have_more_data s2 \<or> 0 < length (outstanding s2))
    \<and> ackno < desired_ackno s2"
  then have "s2\<lparr> state := 2 \<rparr> = s2" by simp
  with h assms show "client2_iter n e s2 = ([AckStale ackno], s2, Running)"
    by (simp add: client2_iter_def client2_step_def client2_await_ack_def)
next
  assume h: "s3 = state_of (client3_run es client3_init) \<and> state s3 = 2
    \<and> (have_more_data s3 \<or> 0 < length (outstanding s3)) \<and> ackno < desired_ackno s3"
  then have reach: "s3 = state_of (client3_run es client3_init)" and st: "state s3 = 2"
    and more: "have_more_data s3 \<or> 0 < length (outstanding s3)"
    and old: "ackno < desired_ackno s3" by blast+
  have inv: "client3_inv s3"
    unfolding reach using client3_run_acks [OF client3_init_inv, of es] by simp
  from st have eq: "s3\<lparr> state := 2 \<rparr> = s3" by simp
  from inv old have stale: "\<not> highest_cum_ack s3 < ackno" by (simp add: client3_inv_def)
  from inv st have stay: "\<not> (int (length (outstanding s3)) < swnd s3 \<and> have_more_data s3)"
    by (simp add: client3_inv_def)
  from st more assms stale stay eq show "client3_iter e s3 = ([AckStale ackno], s3, Running)"
    by (simp add: client3_iter_def client3_step_def client3_await_ack_def)
qed

text \<open>
  Claim C5 at a stale acknowledgment 0 received while waiting for 1.
\<close>

theorem C5_stale_ack_discarded_witness:
  "client2_iter 1 (acked 0)
      \<lparr> seqno = 2, desired_ackno = 1, body = Some [1], have_more_data = True,
        outstanding = [(1, data_packet 1 1)], state = 2 \<rparr>
     = ([AckStale 0],
        \<lparr> seqno = 2, desired_ackno = 1, body = Some [1], have_more_data = True,
          outstanding = [(1, data_packet 1 1)], state = 2 \<rparr>, Running)
   \<and> state_of (client3_run [offers, offers, acked 0, offers, offers, offers, offers] client3_init)
     = \<lparr> seqno = 3, desired_ackno = 1, body = Some [1], have_more_data = True,
         outstanding = [(1, data_packet 1 1), (2, data_packet 2 1)], state = 2,
         highest_cum_ack = 0, swnd = 2 \<rparr>
   \<and> client3_iter (acked 0)
        (state_of (client3_run [offers, offers, acked 0, offers, offers, offers, offers] client3_init))
     = ([AckStale 0],
        state_of (client3_run [offers, offers, acked 0, offers, offers, offers, offers] client3_init),
        Running)"
proof -
  have run: "state_of (client3_run [offers, offers, acked 0, offers, offers, offers, offers] client3_init)
     = \<lparr> seqno = 3, desired_ackno = 1, body = Some [1], have_more_data = True,
         outstanding = [(1, data_packet 1 1), (2, data_packet 2 1)], state = 2,
         highest_cum_ack = 0, swnd = 2 \<rparr>"
    by (simp add: client3_eval codec_eval fixture_eval loop_eval)
  have ack: "recvfrom (acked 0) = Datagram (ack_packet 0)"
    "unpack_II (ack_packet 0) = Inr (0xAAAAAAAA, 0)"
    by (simp_all add: codec_eval fixture_eval)
  from C5_stale_ack_discarded [OF ack,
      of "\<lparr> seqno = 2, desired_ackno = 1, body = Some [1], have_more_data = True,
        outstanding = [(1, data_packet 1 1)], state = 2 \<rparr>" 1
        "state_of (client3_run [offers, offers, acked 0, offers, offers, offers, offers] client3_init)"
        "[offers, offers, acked 0, offers, offers, offers, offers]"]
  show ?thesis by (simp add: run)
qed

text \<open>
  Claim C6 as stated fails. The adaptive-window client sends sequence number 0 and
  receives the acknowledgment 5: \<open>desired_ackno\<close> becomes 6 and \<open>swnd\<close> 2. It sends 1
  and 2, and the wait expires (first run, ending in state 3). The retransmission state
  finds no key 6 in \<open>outstanding\<close> and leaves \<open>swnd\<close> at 2 (second run).
\<close>

theorem C6_timeout_without_reset:
  "client3_run [offers, offers, acked 5, offers, offers, offers, offers, offers] client3_init
     = ([Sendto (data_packet 0 1), AckProgress 5, Sendto (data_packet 1 1),
         Sendto (data_packet 2 1), RecvTimeout],
        \<lparr> seqno = 3, desired_ackno = 6, body = Some [1], have_more_data = True,
          outstanding = [(1, data_packet 1 1), (2, data_packet 2 1)], state = 3,
          highest_cum_ack = 5, swnd = 2 \<rparr>, Running)
   \<and> client3_run [offers, offers, acked 5, offers, offers, offers, offers, offers, offers]
        client3_init
     = ([Sendto (data_packet 0 1), AckProgress 5, Sendto (data_packet 1 1),
         Sendto (data_packet 2 1), RecvTimeout],
        \<lparr> seqno = 3, desired_ackno = 6, body = Some [1], have_more_data = True,
          outstanding = [(1, data_packet 1 1), (2, data_packet 2 1)], state = 2,
          highest_cum_ack = 5, swnd = 2 \<rparr>, Running)"
  by (simp add: client3_eval codec_eval fixture_eval)

text \<open>
  Claim C6, amended: \<open>swnd\<close> starts at 1; an acknowledgment above \<open>highest_cum_ack\<close>
  increments it by exactly 1; an expired wait leads to state 3, where \<open>swnd\<close> is reset to
  exactly 1 when \<open>desired_ackno\<close> is a key of \<open>outstanding\<close> and is left as it is otherwise;
  and after such a reset followed by \<open>j\<close> acknowledgments acted upon with no expired wait
  in between, \<open>swnd\<close> is \<open>1 + j\<close>.
\<close>

theorem C6_adaptive_window:
  "swnd client3_init = 1
   \<and> (state sa = 2 \<and> (have_more_data sa \<or> 0 < length (outstanding sa))
        \<and> recvfrom ea = Datagram ack \<and> unpack_II ack = Inr (magack, ackno)
        \<and> highest_cum_ack sa < ackno
      \<longrightarrow> events_of (client3_iter ea sa) = [AckProgress ackno]
          \<and> swnd (state_of (client3_iter ea sa)) = swnd sa + 1)
   \<and> (state sb = 2 \<and> (have_more_data sb \<or> 0 < length (outstanding sb))
        \<and> (recvfrom eb = Timeout \<or> recvfrom eb = SocketError)
      \<longrightarrow> client3_iter eb sb = ([RecvTimeout], sb\<lparr> state := 3 \<rparr>, Running))
   \<and> (state sc = 3 \<and> (have_more_data sc \<or> 0 < length (outstanding sc))
      \<longrightarrow> state (state_of (client3_iter ec sc)) = 2
          \<and> swnd (state_of (client3_iter ec sc))
             = (if desired_ackno sc \<in> fst ` set (outstanding sc) then 1 else swnd sc))
   \<and> (state sd = 3 \<and> desired_ackno sd \<in> fst ` set (outstanding sd)
        \<and> RecvTimeout \<notin> set (events_of (client3_run (ed # es) sd))
      \<longrightarrow> swnd (state_of (client3_run (ed # es) sd))
          = 1 + int (length (acted_upon (events_of (client3_run (ed # es) sd)))))"
proof (intro conjI impI)
  show "swnd client3_init = 1" by (simp add: client3_init_def)
next
  assume "state sa = 2 \<and> (have_more_data sa \<or> 0 < length (outstanding sa))
        \<and> recvfrom ea = Datagram ack \<and> unpack_II ack = Inr (magack, ackno)
        \<and> highest_cum_ack sa < ackno"
  then show "events_of (client3_iter ea sa) = [AckProgress ackno]"
    and "swnd (state_of (client3_iter ea sa)) = swnd sa + 1"
    by (simp_all add: client3_iter_def client3_step_def client3_await_ack_def Let_def loop_eval)
next
  assume "state sb = 2 \<and> (have_more_data sb \<or> 0 < length (outstanding sb))
        \<and> (recvfrom eb = Timeout \<or> recvfrom eb = SocketError)"
  then show "client3_iter eb sb = ([RecvTimeout], sb\<lparr> state := 3 \<rparr>, Running)"
    by (auto simp: client3_iter_def client3_step_def client3_await_ack_def)
next
  assume h: "state sc = 3 \<and> (have_more_data sc \<or> 0 < length (outstanding sc))"
  then show "state (state_of (client3_iter ec sc)) = 2"
    by (auto simp: client3_iter_def client3_step_def client3_retransmit_def loop_eval
        split: option.splits)
  show "swnd (state_of (client3_iter ec sc))
             = (if desired_ackno sc \<in> fst ` set (outstanding sc) then 1 else swnd sc)"
  proof (cases "map_of (outstanding sc) (desired_ackno sc)")
    case None
    moreover from None have "desired_ackno sc \<notin> fst ` set (outstanding sc)"
      by (simp add: map_of_keys)
    ultimately show ?thesis using h
      by (simp add: client3_iter_def client3_step_def client3_retransmit_def loop_eval)
  next
    case (Some pkt)
    moreover from Some have "desired_ackno sc \<in> fst ` set (outstanding sc)"
      by (metis map_of_keys option.distinct(1))
    ultimately show ?thesis using h
      by (simp add: client3_iter_def client3_step_def client3_retransmit_def loop_eval)
  qed
next
  assume h: "state sd = 3 \<and> desired_ackno sd \<in> fst ` set (outstanding sd)
        \<and> RecvTimeout \<notin> set (events_of (client3_run (ed # es) sd))"
  then obtain pkt where pkt: "map_of (outstanding sd) (desired_ackno sd) = Some pkt"
    by (metis map_of_keys option.exhaust)
  then have ne: "0 < length (outstanding sd)" by auto
  let ?s1 = "sd\<lparr> swnd := 1, state := 2 \<rparr>"
  have first: "client3_iter ed sd = ([Sendto pkt], ?s1, Running)"
    using h pkt ne by (simp add: client3_iter_def client3_step_def client3_retransmit_def)
  obtain e2 s2 r2 where rest: "client3_run es ?s1 = (e2, s2, r2)"
    by (cases "client3_run es ?s1") auto
  have run: "client3_run (ed # es) sd = (Sendto pkt # e2, s2, r2)"
    using first rest unfolding client3_run_def by simp
  from h run have "RecvTimeout \<notin> set e2" by (simp add: events_of_def)
  with client3_run_swnd [of ?s1 es] rest
  have "swnd s2 = 1 + int (length (acted_upon e2))"
    by (simp add: swnd_rel_def loop_eval)
  then show "swnd (state_of (client3_run (ed # es) sd))
          = 1 + int (length (acted_upon (events_of (client3_run (ed # es) sd))))"
    by (simp add: run loop_eval)
qed

text \<open>
  The amended claim C6 on concrete states.
\<close>

theorem C6_adaptive_window_witness:
  "events_of (client3_iter (acked 0)
      \<lparr> seqno = 1, desired_ackno = 0, body = Some [1], have_more_data = True,
        outstanding = [(0, data_packet 0 1)], state = 2, highest_cum_ack = - 1, swnd = 1 \<rparr>)
     = [AckProgress 0]
   \<and> swnd (state_of (client3_iter (acked 0)
      \<lparr> seqno = 1, desired_ackno = 0, body = Some [1], have_more_data = True,
        outstanding = [(0, data_packet 0 1)], state = 2, highest_cum_ack = - 1, swnd = 1 \<rparr>)) = 2
   \<and> client3_iter offers
      \<lparr> seqno = 2, desired_ackno = 0, body = Some [1], have_more_data = True,
        outstanding = [(0, data_packet 0 1), (1, data_packet 1 1)], state = 2,
        highest_cum_ack = - 1, swnd = 2 \<rparr>
     = ([RecvTimeout],
        \<lparr> seqno = 2, desired_ackno = 0, body = Some [1], have_more_data = True,
          outstanding = [(0, data_packet 0 1), (1, data_packet 1 1)], state = 3,
          highest_cum_ack = - 1, swnd = 2 \<rparr>, Running)
   \<and> swnd (state_of (client3_iter offers
      \<lparr> seqno = 2, desired_ackno = 0, body = Some [1], have_more_data = True,
        outstanding = [(0, data_packet 0 1), (1, data_packet 1 1)], state = 3,
        highest_cum_ack = - 1, swnd = 2 \<rparr>)) = 1
   \<and> RecvTimeout \<notin> set (events_of (client3_run [offers, acked 0, offers, offers, acked 1]
      \<lparr> seqno = 2, desired_ackno = 0, body = Some [1], have_more_data = True,
        outstanding = [(0, data_packet 0 1), (1, data_packet 1 1)], state = 3,
        highest_cum_ack = - 1, swnd = 2 \<rparr>))
   \<and> swnd (state_of (client3_run [offers, acked 0, offers, offers, acked 1]
      \<lparr> seqno = 2, desired_ackno = 0, body = Some [1], have_more_data = True,
        outstanding = [(0, data_packet 0 1), (1, data_packet 1 1)], state = 3,
        highest_cum_ack = - 1, swnd = 2 \<rparr>)) = 3"
  using C6_adaptive_window
    [of "\<lparr> seqno = 1, desired_ackno = 0, body = Some [1], have_more_data = True,
        outstanding = [(0, data_packet 0 1)], state = 2, highest_cum_ack = - 1, swnd = 1 \<rparr>"
      "acked 0" "ack_packet 0" "0xAAAAAAAA" 0
      "\<lparr> seqno = 2, desired_ackno = 0, body = Some [1], have_more_data = True,
        outstanding = [(0, data_packet 0 1), (1, data_packet 1 1)], state = 2,
        highest_cum_ack = - 1, swnd = 2 \<rparr>" offers
      "\<lparr> seqno = 2, desired_ackno = 0, body = Some [1], have_more_data = True,
        outstanding = [(0, data_packet 0 1), (1, data_packet 1 1)], state = 3,
        highest_cum_ack = - 1, swnd = 2 \<rparr>" offers
      "\<lparr> seqno = 2, desired_ackno = 0, body = Some [1], have_more_data = True,
        outstanding = [(0, data_packet 0 1), (1, data_packet 1 1)], state = 3,
        highest_cum_ack = - 1, swnd = 2 \<rparr>" offers "[acked 0, offers, offers, acked 1]"]
  by (simp add: client3_eval codec_eval fixture_eval loop_eval)

text \<open>
  Claim C7 as stated fails for the window size 0: the client sends its first packet all
  the same, and \<open>outstanding\<close> holds one entry.
\<close>

theorem C7_window_zero_exceeded:
  "\<not> int (length (outstanding (state_of (client2_run 0 [offers, offers] client2_init)))) \<le> 0"
  by (simp add: client2_eval codec_eval fixture_eval loop_eval)

text \<open>
  Claim C7, amended: for a window size \<open>n\<close> of at least 1, the outstanding set of the
  fixed-window client never holds more than \<open>n\<close> entries, at any point of any run.
\<close>

theorem C7_window_bound:
  "1 \<le> n \<Longrightarrow>
   int (length (outstanding (state_of (client2_run n es client2_init)))) \<le> n
   \<and> distinct (map fst (outstanding (state_of (client2_run n es client2_init))))"
proof -
  assume n: "1 \<le> n"
  have "window_inv n (state_of (run_loop (client2_iter n) es client2_init))"
    by (rule run_loop_inv [where I = "window_inv n"])
      (erule (1) client2_iter_window, rule client2_init_window [OF n])
  then show ?thesis by (simp add: window_inv_def client2_run_def)
qed

text \<open>
  The amended claim C7 for the window size 2.
\<close>

theorem C7_window_bound_witness:
  "(1::int) \<le> 2
   \<and> int (length (outstanding (state_of
        (client2_run 2 [offers, offers, offers, offers, offers, offers] client2_init)))) \<le> 2
   \<and> map fst (outstanding (state_of
        (client2_run 2 [offers, offers, offers, offers, offers, offers] client2_init))) = [0, 1]"
  using C7_window_bound [of 2 "[offers, offers, offers, offers, offers, offers]"]
  by (simp add: client2_eval codec_eval fixture_eval loop_eval)

text \<open>
  Claim C8 (the keys of \<open>outstanding\<close> are exactly the range from \<open>desired_ackno\<close> up to
  \<open>seqno\<close>) evaluated on the code. The fixed-window client sends sequence number 0 and
  receives the acknowledgment 5: \<open>desired_ackno\<close> becomes 6. It then sends sequence
  number 1, which stays in \<open>outstanding\<close> below \<open>desired_ackno\<close>.
\<close>

theorem C8_entry_below_desired_ackno:
  "client2_run 1 [offers, offers, acked 5, offers, offers] client2_init
     = ([Sendto (data_packet 0 1), AckProgress 5, Sendto (data_packet 1 1)],
        \<lparr> seqno = 2, desired_ackno = 6, body = Some [1], have_more_data = True,
          outstanding = [(1, data_packet 1 1)], state = 2 \<rparr>, Running)"
  by (simp add: client2_eval codec_eval fixture_eval)

text \<open>
  Claim C9: in both clients the acknowledgment numbers acted upon by the progress branch
  are strictly increasing over a run, and \<open>desired_ackno\<close> at a later point of a run is
  never below its value at an earlier point.
\<close>

theorem C9_ack_monotonicity:
  "sorted_wrt (<) (acted_upon (events_of (client2_run n es client2_init)))
   \<and> desired_ackno (state_of (client2_run n es client2_init))
       \<le> desired_ackno (state_of (client2_run n (es @ es') client2_init))
   \<and> sorted_wrt (<) (acted_upon (events_of (client3_run es client3_init)))
   \<and> desired_ackno (state_of (client3_run es client3_init))
       \<le> desired_ackno (state_of (client3_run (es @ es') client3_init))"
proof -
  have a: "sorted_wrt (<) (acted_upon (events_of (client2_run n es client2_init)))"
    using client2_run_acks [of client2_init n es] by (simp add: acks_rel_def)
  obtain zs where zs: "state_of (client2_run n (es @ es') client2_init)
      = state_of (client2_run n zs (state_of (client2_run n es client2_init)))"
    unfolding client2_run_def using run_loop_later [of "client2_iter n" es es' client2_init] by blast
  have b: "desired_ackno (state_of (client2_run n es client2_init))
       \<le> desired_ackno (state_of (client2_run n (es @ es') client2_init))"
    unfolding zs using client2_run_acks [of "state_of (client2_run n es client2_init)" n zs]
    by (simp add: acks_rel_def)
  note h = client3_run_acks [OF client3_init_inv, of es]
  have c: "sorted_wrt (<) (acted_upon (events_of (client3_run es client3_init)))"
    using h by (simp add: acks_rel_def)
  obtain ys where ys: "state_of (client3_run (es @ es') client3_init)
      = state_of (client3_run ys (state_of (client3_run es client3_init)))"
    unfolding client3_run_def using run_loop_later [of client3_iter es es' client3_init] by blast
  from h have "client3_inv (state_of (client3_run es client3_init))" by simp
  from client3_run_acks [OF this, of ys]
  have d: "desired_ackno (state_of (client3_run es client3_init))
       \<le> desired_ackno (state_of (client3_run (es @ es') client3_init))"
    unfolding ys by (simp add: acks_rel_def)
  from a b c d show ?thesis by simp
qed

text \<open>
  Claim C9 on a run with the acknowledgments 5, 3 and 7.
\<close>

theorem C9_ack_monotonicity_witness:
  "acted_upon (events_of (client2_run 1 [offers, offers, acked 5, offers, offers, acked 3, acked 7]
      client2_init)) = [5, 7]
   \<and> desired_ackno (state_of (client2_run 1 [offers, offers, acked 5] client2_init)) = 6
   \<and> desired_ackno (state_of (client2_run 1 ([offers, offers, acked 5] @ [offers, offers, acked 3, acked 7])
      client2_init)) = 8
   \<and> sorted_wrt (<) (acted_upon (events_of (client3_run [offers, offers, acked 5] client3_init)))"
  using C9_ack_monotonicity [of 1 "[offers, offers, acked 5]" "[offers, offers, acked 3, acked 7]"]
  by (simp add: client2_eval client3_run_def client3_iter_def client3_step_def client3_init_def
      client3_await_ack_def client3_retransmit_def codec_eval fixture_eval loop_eval)

text \<open>
  Claim C10: in both clients, a datagram that is not exactly 8 bytes long, received while
  waiting for an acknowledgment, raises the \<open>struct.error\<close> of \<open>struct.unpack\<close>, which the
  \<open>except\<close> clause does not catch: the run ends there, whatever would follow.
\<close>

theorem C10_malformed_ack_terminates_sender:
  assumes "recvfrom e = Datagram ack" and "length ack \<noteq> 8"
  shows "(state s2 = 2 \<and> (have_more_data s2 \<or> 0 < length (outstanding s2))
          \<longrightarrow> client2_run n (e # es) s2 = ([], s2, Crashed StructError))
       \<and> (state s3 = 2 \<and> (have_more_data s3 \<or> 0 < length (outstanding s3))
          \<longrightarrow> client3_run (e # es) s3 = ([], s3, Crashed StructError))"
  using assms
  by (simp add: client2_run_def client2_iter_def client2_step_def client2_await_ack_def
      client3_run_def client3_iter_def client3_step_def client3_await_ack_def unpack_II_def)

text \<open>
  Claim C10 at a 3-byte datagram.
\<close>

theorem C10_malformed_ack_terminates_sender_witness:
  "length [0xAA, 0xAA, 0xAA :: byte] \<noteq> 8
   \<and> client2_run 1 [\<lparr> wait_for_data = None, recvfrom = Datagram [0xAA, 0xAA, 0xAA] \<rparr>, acked 0]
        \<lparr> seqno = 1, desired_ackno = 0, body = Some [1], have_more_data = True,
          outstanding = [(0, data_packet 0 1)], state = 2 \<rparr>
     = ([], \<lparr> seqno = 1, desired_ackno = 0, body = Some [1], have_more_data = True,
          outstanding = [(0, data_packet 0 1)], state = 2 \<rparr>, Crashed StructError)
   \<and> client3_run [\<lparr> wait_for_data = None, recvfrom = Datagram [0xAA, 0xAA, 0xAA] \<rparr>, acked 0]
        \<lparr> seqno = 1, desired_ackno = 0, body = Some [1], have_more_data = True,
          outstanding = [(0, data_packet 0 1)], state = 2, highest_cum_ack = - 1, swnd = 1 \<rparr>
     = ([], \<lparr> seqno = 1, desired_ackno = 0, body = Some [1], have_more_data = True,
          outstanding = [(0, data_packet 0 1)], state = 2, highest_cum_ack = - 1, swnd = 1 \<rparr>,
        Crashed StructError)"
  using C10_malformed_ack_terminates_sender
    [of "\<lparr> wait_for_data = None, recvfrom = Datagram [0xAA, 0xAA, 0xAA] \<rparr>" "[0xAA, 0xAA, 0xAA]"
        "\<lparr> seqno = 1, desired_ackno = 0, body = Some [1], have_more_data = True,
          outstanding = [(0, data_packet 0 1)], state = 2 \<rparr>" 1 "[acked 0]"
        "\<lparr> seqno = 1, desired_ackno = 0, body = Some [1], have_more_data = True,
          outstanding = [(0, data_packet 0 1)], state = 2, highest_cum_ack = - 1, swnd = 1 \<rparr>"]
  by simp

end
